theory Spec2Isabelle
  imports Complex_Main "HOL-Library.AList"
begin

section \<open>Frontend components\<close>

subsection \<open>ProgressBar.tsx (enhanced component): the clamped fill width\<close>

text \<open>
  A JavaScript \<open>number\<close> is an IEEE double. \<open>Math.min\<close> and \<open>Math.max\<close> only compare
  and select, they never round, so a finite double is modelled by the real number it
  denotes; the two infinities and NaN are separate constructors.
\<close>

datatype js_number = NaN | NegInfinity | Finite real | PosInfinity

fun js_le :: "js_number \<Rightarrow> js_number \<Rightarrow> bool" where
  "js_le NaN _ = False"
| "js_le _ NaN = False"
| "js_le NegInfinity _ = True"
| "js_le _ PosInfinity = True"
| "js_le (Finite a) (Finite b) = (a \<le> b)"
| "js_le _ _ = False"

text \<open>\<open>Math.max(a, b)\<close> and \<open>Math.min(a, b)\<close>: NaN if either argument is NaN.\<close>

definition Math_max :: "js_number \<Rightarrow> js_number \<Rightarrow> js_number" where
  "Math_max a b = (if a = NaN \<or> b = NaN then NaN else if js_le a b then b else a)"

definition Math_min :: "js_number \<Rightarrow> js_number \<Rightarrow> js_number" where
  "Math_min a b = (if a = NaN \<or> b = NaN then NaN else if js_le a b then a else b)"

text \<open>\<open>const clampedProgress = Math.min(100, Math.max(0, progress));\<close>\<close>

definition clampedProgress :: "js_number \<Rightarrow> js_number" where
  "clampedProgress progress = Math_min (Finite 100) (Math_max (Finite 0) progress)"

text \<open>
  The fill \<open>div\<close> has \<open>width: `${clampedProgress}%`\<close>: the rendered width, in percent
  of the bar, is the clamped number.
\<close>

definition fill_width_percent :: "js_number \<Rightarrow> js_number" where
  "fill_width_percent progress = clampedProgress progress"

subsection \<open>Dropzone.tsx: the selected file list\<close>

text \<open>
  \<open>setFiles(files.filter((_, index) => index !== indexToRemove))\<close>: the model returns
  the list handed to \<open>setFiles\<close>.
\<close>

definition removeFile :: "'a list \<Rightarrow> nat \<Rightarrow> 'a list" where
  "removeFile files indexToRemove =
     map snd (filter (\<lambda>(index, _). index \<noteq> indexToRemove) (enumerate 0 files))"

text \<open>\<open>setFiles([...files, ...acceptedFiles])\<close>\<close>

definition onDrop :: "'a list \<Rightarrow> 'a list \<Rightarrow> 'a list" where
  "onDrop files acceptedFiles = files @ acceptedFiles"

subsection \<open>DirectionSelector.tsx: the conversion direction and its persistence\<close>

text \<open>
  \<open>Direction\<close> is a TypeScript union of two string literals; at run time the state
  holds a string, and so does the model.
\<close>

type_synonym Direction = string

record DirectionOption =
  opt_value :: Direction
  opt_description :: string

definition DIRECTION_OPTIONS :: "DirectionOption list" where
  "DIRECTION_OPTIONS =
     [\<lparr>opt_value = ''pg2ora'',
       opt_description = ''Convert PostgreSQL scripts to Oracle-compatible SQL''\<rparr>,
      \<lparr>opt_value = ''ora2pg'',
       opt_description = ''Convert Oracle scripts to PostgreSQL-compatible SQL''\<rparr>]"

definition STORAGE_KEY :: string where
  "STORAGE_KEY = ''sql-cleanser-direction''"

text \<open>
  The state the component touches: the \<open>direction\<close> state of App.tsx (reached through
  \<open>onChange = setDirection\<close>) and the browser's \<open>localStorage\<close>, a map from keys to
  strings.
\<close>

record selector_state =
  direction :: Direction
  localStorage :: "string \<rightharpoonup> string"

text \<open>\<open>useState<Direction>("pg2ora")\<close> in App.tsx; the storage holds whatever it holds.\<close>

definition initial_state :: "(string \<rightharpoonup> string) \<Rightarrow> selector_state" where
  "initial_state store = \<lparr>direction = ''pg2ora'', localStorage = store\<rparr>"

text \<open>
  The mount effect: \<open>getItem\<close> gives \<open>null\<close> for a missing key; \<open>savedDirection &&\<close>
  is false for \<open>null\<close> and for the empty string.
\<close>

definition on_mount :: "selector_state \<Rightarrow> selector_state" where
  "on_mount s =
     (case localStorage s STORAGE_KEY of
        None \<Rightarrow> s
      | Some savedDirection \<Rightarrow>
          if savedDirection \<noteq> [] \<and>
             (savedDirection = ''pg2ora'' \<or> savedDirection = ''ora2pg'')
          then s\<lparr>direction := savedDirection\<rparr>
          else s)"

text \<open>\<open>handleChange\<close>: \<open>localStorage.setItem(STORAGE_KEY, newDirection); onChange(newDirection)\<close>\<close>

definition handleChange :: "Direction \<Rightarrow> selector_state \<Rightarrow> selector_state" where
  "handleChange newDirection s =
     s\<lparr>localStorage := (localStorage s)(STORAGE_KEY \<mapsto> newDirection),
       direction := newDirection\<rparr>"

text \<open>
  What can happen to the state: the component mounts, the user clicks the button of
  option \<open>k\<close> (the buttons are \<open>DIRECTION_OPTIONS.map(...)\<close>, each calling
  \<open>handleChange(option.value)\<close>), or something outside the component stores or removes
  an entry of \<open>localStorage\<close>.
\<close>

datatype selector_event =
    Mount
  | Click nat
  | StorageSet string string
  | StorageRemove string

fun step :: "selector_event \<Rightarrow> selector_state \<Rightarrow> selector_state" where
  "step Mount s = on_mount s"
| "step (Click k) s =
     (if k < length DIRECTION_OPTIONS
      then handleChange (opt_value (DIRECTION_OPTIONS ! k)) s else s)"
| "step (StorageSet key v) s = s\<lparr>localStorage := (localStorage s)(key \<mapsto> v)\<rparr>"
| "step (StorageRemove key) s = s\<lparr>localStorage := (localStorage s)(key := None)\<rparr>"

fun run :: "selector_event list \<Rightarrow> selector_state \<Rightarrow> selector_state" where
  "run [] s = s"
| "run (e # es) s = run es (step e s)"

definition is_direction :: "string \<Rightarrow> bool" where
  "is_direction d = (d = ''pg2ora'' \<or> d = ''ora2pg'')"

text \<open>The events that are the component's own code.\<close>

fun own_event :: "selector_event \<Rightarrow> bool" where
  "own_event Mount = True"
| "own_event (Click _) = True"
| "own_event _ = False"

section \<open>Backend: data model\<close>

text \<open>
  The backend sources (\<open>ingest.py\<close>, \<open>fuzz.py\<close>, \<open>compare_utils.py\<close>,
  \<open>ollama_utils.py\<close>) are not part of the source tree at hand. What the tree holds of
  them are the code excerpts of PROJECT_OVERVIEW.md (the pattern \<open>INSERT_REGEX\<close> and
  the table-ordering loop) and the prose of docs/INTERNAL_WORKINGS.md. The excerpts are
  embedded as they are written; everything else is modelled from the specification and
  marked so.
\<close>

text \<open>
  Modelled from the spec: the Row and Table records of section 3 (the parser that builds
  them is missing). A value is the raw literal together with its inferred scalar kind;
  the row keeps its column list and its value list side by side, as the row dicts
  \<open>{table, columns, values, source_file, lineno}\<close> of INTERNAL_WORKINGS.md do.
\<close>

datatype scalar_kind = KInteger | KDecimal | KString | KBoolean | KNull | KDateTime | KUnknown

type_synonym literal = "string \<times> scalar_kind"

record Row =
  row_table :: string
  columns :: "string list"
  vals :: "literal list"
  source_file :: string
  lineno :: nat

datatype confidence = Heuristic | OracleConfirmed | FallbackLowConfidence

record Table =
  table_name :: string
  table_rows :: "Row list"
  primary_key :: "string list"
  key_confidence :: confidence

type_synonym dataset = "(string \<times> Row list) list"

section \<open>Backend: the INSERT pattern of ingest.py\<close>































section \<open>Backend: table ordering of fuzz.py\<close>

text \<open>
  PROJECT_OVERVIEW.md, step 5:
  \<^verbatim>\<open>
  G = nx.DiGraph()
  for table, rows in rows_by_table.items():
      for col in rows[0]['columns']:
          if col.upper().endswith('_ID'):
              ref_table = col[:-3]  # user_id -> user
              if ref_table in rows_by_table:
                  G.add_edge(ref_table, table)
  order = list(nx.topological_sort(G))
  \<close>
  \<open>rows_by_table\<close> is a dict, that is a list of entries in insertion order.
\<close>

datatype py_error = IndexError | RuntimeError | NetworkXUnfeasible

text \<open>\<open>str.upper\<close>, \<open>str.endswith\<close> and the slice \<open>col[:-3]\<close>, on ASCII text.\<close>

definition upper_char :: "char \<Rightarrow> char" where
  "upper_char c =
     (let n = (of_char c :: nat) in if 97 \<le> n \<and> n \<le> 122 then char_of (n - 32) else c)"

definition upper :: "string \<Rightarrow> string" where
  "upper s = map upper_char s"

definition endswith :: "string \<Rightarrow> string \<Rightarrow> bool" where
  "endswith s suffix =
     (length suffix \<le> length s \<and> drop (length s - length suffix) s = suffix)"

text \<open>
  A networkx \<open>DiGraph\<close>: the nodes and the edges, each in the order they were added.
  \<open>add_edge\<close> adds the two end points as nodes when they are new, and the edge when it is
  new.
\<close>

record DiGraph =
  nodes :: "string list"
  edges :: "(string \<times> string) list"

definition empty_graph :: DiGraph where
  "empty_graph = \<lparr>nodes = [], edges = []\<rparr>"

definition add_node :: "string \<Rightarrow> DiGraph \<Rightarrow> DiGraph" where
  "add_node n G = (if n \<in> set (nodes G) then G else G\<lparr>nodes := nodes G @ [n]\<rparr>)"

definition add_edge :: "string \<Rightarrow> string \<Rightarrow> DiGraph \<Rightarrow> DiGraph" where
  "add_edge u v G =
     (let G' = add_node v (add_node u G)
      in if (u, v) \<in> set (edges G') then G' else G'\<lparr>edges := edges G' @ [(u, v)]\<rparr>)"

text \<open>The inner loop, over the columns of the table's first row.\<close>

fun add_reference_edges :: "dataset \<Rightarrow> string \<Rightarrow> string list \<Rightarrow> DiGraph \<Rightarrow> DiGraph" where
  "add_reference_edges rows_by_table table [] G = G"
| "add_reference_edges rows_by_table table (col # cols) G =
     add_reference_edges rows_by_table table cols
       (if endswith (upper col) ''_ID''
        then (let ref_table = take (length col - 3) col
              in if ref_table \<in> set (map fst rows_by_table)
                 then add_edge ref_table table G else G)
        else G)"

text \<open>The outer loop; \<open>rows[0]\<close> raises \<open>IndexError\<close> on a table without rows.\<close>

fun build_graph_from :: "dataset \<Rightarrow> dataset \<Rightarrow> DiGraph \<Rightarrow> py_error + DiGraph" where
  "build_graph_from rows_by_table [] G = Inr G"
| "build_graph_from rows_by_table ((table, rows) # rest) G =
     (case rows of
        [] \<Rightarrow> Inl IndexError
      | r # _ \<Rightarrow>
          build_graph_from rows_by_table rest
            (add_reference_edges rows_by_table table (columns r) G))"

definition build_graph :: "dataset \<Rightarrow> py_error + DiGraph" where
  "build_graph rows_by_table = build_graph_from rows_by_table rows_by_table empty_graph"

text \<open>
  \<open>nx.topological_sort\<close> is library code. It yields the nodes of
  \<open>nx.topological_generations\<close>, generation by generation:
  \<^verbatim>\<open>
  indegree_map = {v: d for v, d in G.in_degree() if d > 0}
  zero_indegree = [v for v, d in G.in_degree() if d == 0]
  while zero_indegree:
      this_generation = zero_indegree
      zero_indegree = []
      for node in this_generation:
          if node not in G: raise RuntimeError
          for child in G.neighbors(node):
              try: indegree_map[child] -= 1
              except KeyError: raise RuntimeError
              if indegree_map[child] == 0:
                  zero_indegree.append(child)
                  del indegree_map[child]
      yield this_generation
  if indegree_map: raise nx.NetworkXUnfeasible
  \<close>
  \<open>list(...)\<close> runs the generator to its end, so the exception raised after the last
  generation is the result of the whole call.
\<close>

definition in_degree :: "DiGraph \<Rightarrow> string \<Rightarrow> nat" where
  "in_degree G v = length (filter (\<lambda>e. snd e = v) (edges G))"

definition neighbors :: "DiGraph \<Rightarrow> string \<Rightarrow> string list" where
  "neighbors G u = map snd (filter (\<lambda>e. fst e = u) (edges G))"

type_synonym indegree_map = "(string \<times> nat) list"

fun relax_children ::
  "string list \<Rightarrow> indegree_map \<Rightarrow> string list \<Rightarrow> py_error + (indegree_map \<times> string list)" where
  "relax_children [] m zero_indegree = Inr (m, zero_indegree)"
| "relax_children (child # cs) m zero_indegree =
     (case map_of m child of
        None \<Rightarrow> Inl RuntimeError
      | Some d \<Rightarrow>
          if d - 1 = 0
          then relax_children cs (AList.delete child m) (zero_indegree @ [child])
          else relax_children cs (AList.update child (d - 1) m) zero_indegree)"

fun process_generation ::
  "DiGraph \<Rightarrow> string list \<Rightarrow> indegree_map \<Rightarrow> string list
     \<Rightarrow> py_error + (indegree_map \<times> string list)" where
  "process_generation G [] m zero_indegree = Inr (m, zero_indegree)"
| "process_generation G (node # ns) m zero_indegree =
     (if node \<notin> set (nodes G) then Inl RuntimeError
      else case relax_children (neighbors G node) m zero_indegree of
             Inl e \<Rightarrow> Inl e
           | Inr (m', zero') \<Rightarrow> process_generation G ns m' zero')"

text \<open>
  The \<open>while\<close> loop ends because every node that enters the next generation has left the
  map.
\<close>

lemma length_update_present:
  "k \<in> fst ` set al \<Longrightarrow> length (AList.update k v al) = length al"
  by (induction al) auto

lemma length_delete_present:
  "k \<in> fst ` set al \<Longrightarrow> length (AList.delete k al) < length al"
  by (induction al) (auto simp: AList.delete_eq le_imp_less_Suc)

lemma relax_children_length:
  "relax_children cs m z = Inr (m', z') \<Longrightarrow> length m' + length z' \<le> length m + length z"
proof (induction cs arbitrary: m z)
  case Nil
  then show ?case by simp
next
  case (Cons c cs)
  from Cons.prems obtain d where d: "map_of m c = Some d"
    by (auto split: option.splits)
  then have "c \<in> fst ` set m" by (auto dest: map_of_SomeD intro: rev_image_eqI)
  then have "length (AList.delete c m) < length m"
    by (rule length_delete_present)
  moreover have "length (AList.update c (d - 1) m) = length m"
    using \<open>c \<in> fst ` set m\<close> by (rule length_update_present)
  ultimately show ?case using Cons.IH Cons.prems d
    by (fastforce split: if_splits)
qed

lemma process_generation_length:
  "process_generation G ns m z = Inr (m', z') \<Longrightarrow> length m' + length z' \<le> length m + length z"
proof (induction ns arbitrary: m z)
  case Nil
  then show ?case by simp
next
  case (Cons n ns)
  then show ?case
    by (fastforce split: if_splits sum.splits dest: relax_children_length)
qed

function generations_from ::
  "DiGraph \<Rightarrow> indegree_map \<Rightarrow> string list \<Rightarrow> py_error + string list list" where
  "generations_from G m zero_indegree =
     (if zero_indegree = []
      then (if m \<noteq> [] then Inl NetworkXUnfeasible else Inr [])
      else case process_generation G zero_indegree m [] of
             Inl e \<Rightarrow> Inl e
           | Inr (m', zero') \<Rightarrow>
               (case generations_from G m' zero' of
                  Inl e \<Rightarrow> Inl e
                | Inr gens \<Rightarrow> Inr (zero_indegree # gens)))"
  by pat_completeness auto
termination
proof (relation "measure (\<lambda>(G, m, z). length m + (if z = [] then 0 else 1))")
  show "wf (measure (\<lambda>(G, m, z). length m + (if z = [] then 0 else 1)))" by simp
next
  fix G :: DiGraph and m :: indegree_map and zero_indegree :: "string list"
    and x2 :: "indegree_map \<times> string list" and m' zero'
  assume "zero_indegree \<noteq> []"
    and "process_generation G zero_indegree m [] = Inr x2" and "(m', zero') = x2"
  then have "length m' + length zero' \<le> length m"
    using process_generation_length [of G zero_indegree m "[]" m' zero'] by simp
  with \<open>zero_indegree \<noteq> []\<close>
  show "((G, m', zero'), (G, m, zero_indegree))
          \<in> measure (\<lambda>(G, m, z). length m + (if z = [] then 0 else 1))"
    by (cases zero') auto
qed

definition topological_generations :: "DiGraph \<Rightarrow> py_error + string list list" where
  "topological_generations G =
     generations_from G
       (filter (\<lambda>(v, d). d > 0) (map (\<lambda>v. (v, in_degree G v)) (nodes G)))
       (filter (\<lambda>v. in_degree G v = 0) (nodes G))"

definition topological_sort :: "DiGraph \<Rightarrow> py_error + string list" where
  "topological_sort G =
     (case topological_generations G of Inl e \<Rightarrow> Inl e | Inr gens \<Rightarrow> Inr (concat gens))"

text \<open>The excerpt as a whole: the graph, then its order.\<close>

definition table_order :: "dataset \<Rightarrow> py_error + string list" where
  "table_order rows_by_table =
     (case build_graph rows_by_table of
        Inl e \<Rightarrow> Inl e
      | Inr G \<Rightarrow> topological_sort G)"

text \<open>The rank of a table in an order: its position.\<close>

definition rank :: "'a list \<Rightarrow> 'a \<Rightarrow> nat" where
  "rank order x = length (takeWhile (\<lambda>y. y \<noteq> x) order)"

text \<open>
  Two inputs: table \<open>a\<close> with a column \<open>b_id\<close> next to table \<open>b\<close>; and the same with a
  column \<open>a_id\<close> in table \<open>b\<close>, which closes a cycle.
\<close>

definition row_with :: "string \<Rightarrow> string list \<Rightarrow> Row" where
  "row_with t cols =
     \<lparr>row_table = t, columns = cols, vals = map (\<lambda>c. (''1'', KInteger)) cols,
      source_file = t @ ''.sql'', lineno = 1\<rparr>"

definition reference_tables :: dataset where
  "reference_tables =
     [(''a'', [row_with ''a'' [''id'', ''b_id'']]), (''b'', [row_with ''b'' [''id'']])]"

definition cyclic_tables :: dataset where
  "cyclic_tables =
     [(''a'', [row_with ''a'' [''id'', ''b_id'']]), (''b'', [row_with ''b'' [''id'', ''a_id'']])]"

section \<open>Backend: DiffEngine\<close>

text \<open>
  Modelled from the spec: section 4.4 and INTERNAL_WORKINGS.md section 3 (the diff of
  \<open>compare_utils.py\<close> is missing). The value of a column in a row, \<open>None\<close> when the row
  has no such column.
\<close>

definition row_value :: "Row \<Rightarrow> string \<Rightarrow> literal option" where
  "row_value r c = map_of (zip (columns r) (vals r)) c"

text \<open>
  Modelled from the spec: the PK tuple of a row (glossary), the values of the key columns
  in key order.
\<close>

type_synonym pk_tuple = "literal option list"

definition pk_of :: "string list \<Rightarrow> Row \<Rightarrow> pk_tuple" where
  "pk_of pk r = map (row_value r) pk"

datatype anomaly = DuplicateKey pk_tuple

text \<open>
  Modelled from the spec: "build two maps PK-tuple to Row for each side (on duplicate keys
  within one side, keep the last-seen Row and record an anomaly rather than failing)".
  The map is a dict: an association list in insertion order (\<open>b_map\<close>, \<open>o_map\<close> of
  INTERNAL_WORKINGS.md).
\<close>

fun build_map ::
  "string list \<Rightarrow> Row list \<Rightarrow> (pk_tuple \<times> Row) list \<times> anomaly list
     \<Rightarrow> (pk_tuple \<times> Row) list \<times> anomaly list" where
  "build_map pk [] acc = acc"
| "build_map pk (r # rs) (m, anomalies) =
     (let k = pk_of pk r
      in build_map pk rs
           (AList.update k r m,
            if map_of m k \<noteq> None then anomalies @ [DuplicateKey k] else anomalies))"

definition key_map :: "Table \<Rightarrow> (pk_tuple \<times> Row) list" where
  "key_map T = fst (build_map (primary_key T) (table_rows T) ([], []))"

definition key_anomalies :: "Table \<Rightarrow> anomaly list" where
  "key_anomalies T = snd (build_map (primary_key T) (table_rows T) ([], []))"

text \<open>
  Modelled from the spec: "sort each map's keys using per-column typed comparison". The
  sort is a stable insertion sort; the comparison \<open>le\<close> is its parameter.
\<close>

fun insert_by :: "('a \<Rightarrow> 'a \<Rightarrow> bool) \<Rightarrow> 'a \<Rightarrow> 'a list \<Rightarrow> 'a list" where
  "insert_by le x [] = [x]"
| "insert_by le x (y # ys) = (if le x y then x # y # ys else y # insert_by le x ys)"

definition sort_by :: "('a \<Rightarrow> 'a \<Rightarrow> bool) \<Rightarrow> 'a list \<Rightarrow> 'a list" where
  "sort_by le xs = foldr (insert_by le) xs []"

text \<open>
  Modelled from the spec: the per-column typed comparison, "numeric compare for
  numeric-kind columns, lexicographic otherwise". A numeric literal is an optional sign,
  digits, and optionally a point and more digits.
\<close>

fun lex_le :: "string \<Rightarrow> string \<Rightarrow> bool" where
  "lex_le [] _ = True"
| "lex_le (x # xs) [] = False"
| "lex_le (x # xs) (y # ys) =
     ((of_char x :: nat) < of_char y \<or> (x = y \<and> lex_le xs ys))"

definition digits_value :: "string \<Rightarrow> nat" where
  "digits_value ds = foldl (\<lambda>n c. 10 * n + (of_char c - 48)) 0 ds"

definition numeric_value :: "string \<Rightarrow> rat" where
  "numeric_value s =
     (let neg = (s \<noteq> [] \<and> hd s = CHR ''-'');
          body = (if s \<noteq> [] \<and> (hd s = CHR ''-'' \<or> hd s = CHR ''+'') then tl s else s);
          ip = takeWhile (\<lambda>c. c \<noteq> CHR ''.'') body;
          fp = drop 1 (dropWhile (\<lambda>c. c \<noteq> CHR ''.'') body);
          v = of_nat (digits_value (ip @ fp)) / 10 ^ length fp
      in if neg then - v else v)"

definition numeric_kind :: "scalar_kind \<Rightarrow> bool" where
  "numeric_kind k = (k = KInteger \<or> k = KDecimal)"

fun literal_le :: "literal option \<Rightarrow> literal option \<Rightarrow> bool" where
  "literal_le None _ = True"
| "literal_le (Some _) None = False"
| "literal_le (Some (a, ka)) (Some (b, kb)) =
     (if numeric_kind ka \<and> numeric_kind kb then numeric_value a \<le> numeric_value b
      else lex_le a b)"

fun typed_le :: "pk_tuple \<Rightarrow> pk_tuple \<Rightarrow> bool" where
  "typed_le [] _ = True"
| "typed_le (x # xs) [] = False"
| "typed_le (x # xs) (y # ys) =
     (if literal_le x y \<and> literal_le y x then typed_le xs ys else literal_le x y)"

text \<open>
  Modelled from the spec: "compare every non-excluded column ... and record a mismatch
  entry with per-column (source value, target value) pairs whenever any difference
  exists, including type-of-null mismatches". The columns are those of the source row
  followed by those only the target row has; values are compared with their kinds.
\<close>

type_synonym column_diff = "string \<times> literal option \<times> literal option"

definition compare_rows :: "string list \<Rightarrow> Row \<Rightarrow> Row \<Rightarrow> column_diff list" where
  "compare_rows excluded s t =
     map (\<lambda>c. (c, row_value s c, row_value t c))
       (filter (\<lambda>c. c \<notin> set excluded \<and> row_value s c \<noteq> row_value t c)
          (columns s @ filter (\<lambda>c. c \<notin> set (columns s)) (columns t)))"

text \<open>
  Modelled from the spec: the DiffResult of section 3 for one table, with the counts of
  its three lists as summary.
\<close>

record DiffResult =
  missing :: "pk_tuple list"
  extra :: "pk_tuple list"
  mismatches :: "(pk_tuple \<times> column_diff list) list"
  summary :: "nat \<times> nat \<times> nat"

text \<open>
  Modelled from the spec: "keys only in source: missing; keys only in target: extra; keys
  in both: compare". Each takes the sorted keys of one map.
\<close>

definition missing_keys ::
  "(pk_tuple \<times> Row) list \<Rightarrow> (pk_tuple \<times> Row) list \<Rightarrow> pk_tuple list \<Rightarrow> pk_tuple list" where
  "missing_keys ms mt ks = filter (\<lambda>k. map_of mt k = None) ks"

definition extra_keys ::
  "(pk_tuple \<times> Row) list \<Rightarrow> (pk_tuple \<times> Row) list \<Rightarrow> pk_tuple list \<Rightarrow> pk_tuple list" where
  "extra_keys ms mt kt = filter (\<lambda>k. map_of ms k = None) kt"

definition matched_keys ::
  "(pk_tuple \<times> Row) list \<Rightarrow> (pk_tuple \<times> Row) list \<Rightarrow> pk_tuple list \<Rightarrow> pk_tuple list" where
  "matched_keys ms mt ks = filter (\<lambda>k. map_of mt k \<noteq> None) ks"

fun mismatch_entries ::
  "string list \<Rightarrow> (pk_tuple \<times> Row) list \<Rightarrow> (pk_tuple \<times> Row) list \<Rightarrow> pk_tuple list
     \<Rightarrow> (pk_tuple \<times> column_diff list) list" where
  "mismatch_entries excluded ms mt [] = []"
| "mismatch_entries excluded ms mt (k # ks) =
     (case (map_of ms k, map_of mt k) of
        (Some s, Some t) \<Rightarrow>
          (let d = compare_rows excluded s t
           in if d \<noteq> [] then (k, d) # mismatch_entries excluded ms mt ks
              else mismatch_entries excluded ms mt ks)
      | _ \<Rightarrow> mismatch_entries excluded ms mt ks)"

text \<open>
  Modelled from the spec: one run of the diff over two maps. \<open>ks\<close> and \<open>kt\<close> are the keys
  of the source map and of the target map in the order the run happens to iterate them;
  the sort comes first, to "fix a canonical iteration order".
\<close>

definition diff_with_iteration ::
  "(pk_tuple \<Rightarrow> pk_tuple \<Rightarrow> bool) \<Rightarrow> string list
     \<Rightarrow> (pk_tuple \<times> Row) list \<Rightarrow> (pk_tuple \<times> Row) list
     \<Rightarrow> pk_tuple list \<Rightarrow> pk_tuple list \<Rightarrow> DiffResult" where
  "diff_with_iteration le excluded ms mt ks kt =
     (let sks = sort_by le ks; skt = sort_by le kt;
          mis = missing_keys ms mt sks;
          ext = extra_keys ms mt skt;
          mm = mismatch_entries excluded ms mt (matched_keys ms mt sks)
      in \<lparr>missing = mis, extra = ext, mismatches = mm,
          summary = (length mis, length ext, length mm)\<rparr>)"

datatype diff_error = TableDiffFailure

text \<open>
  Modelled from the spec: the DiffEngine for one table present on both sides. Key tuples
  of different arity are the TableDiffFailure of section 7. The maps are iterated in
  insertion order.
\<close>

definition DiffEngine ::
  "(pk_tuple \<Rightarrow> pk_tuple \<Rightarrow> bool) \<Rightarrow> string list \<Rightarrow> Table \<Rightarrow> Table
     \<Rightarrow> diff_error + (DiffResult \<times> anomaly list)" where
  "DiffEngine le excluded source target =
     (if length (primary_key source) \<noteq> length (primary_key target) then Inl TableDiffFailure
      else
        (let ms = key_map source; mt = key_map target
         in Inr (diff_with_iteration le excluded ms mt (map fst ms) (map fst mt),
                 key_anomalies source @ key_anomalies target)))"

text \<open>
  Modelled from the spec: the keys found on both sides (the "matched keys" of section 8),
  in the order the DiffEngine compares them.
\<close>

definition common_keys ::
  "(pk_tuple \<Rightarrow> pk_tuple \<Rightarrow> bool) \<Rightarrow> Table \<Rightarrow> Table \<Rightarrow> pk_tuple list" where
  "common_keys le source target =
     matched_keys (key_map source) (key_map target) (sort_by le (map fst (key_map source)))"

text \<open>The keys of a table: the PK tuples of its rows.\<close>

definition table_keys :: "Table \<Rightarrow> pk_tuple set" where
  "table_keys T = pk_of (primary_key T) ` set (table_rows T)"



text \<open>
  A mismatch entry with source and target exchanged, and the content of an entry: its key
  and its set of per-column pairs.
\<close>

definition swap_diff :: "column_diff \<Rightarrow> column_diff" where
  "swap_diff d = (fst d, snd (snd d), fst (snd d))"

definition swap_entry :: "pk_tuple \<times> column_diff list \<Rightarrow> pk_tuple \<times> column_diff list" where
  "swap_entry e = (fst e, map swap_diff (snd e))"

definition entry_content :: "pk_tuple \<times> column_diff list \<Rightarrow> pk_tuple \<times> column_diff set" where
  "entry_content e = (fst e, set (snd e))"

text \<open>Example 2 of the spec, with one more row on each side.\<close>

definition order_row :: "string \<Rightarrow> string \<Rightarrow> Row" where
  "order_row i st =
     \<lparr>row_table = ''orders'', columns = [''id'', ''status''],
      vals = [(i, KInteger), (st, KString)], source_file = ''orders.sql'', lineno = 1\<rparr>"

definition orders_source :: Table where
  "orders_source =
     \<lparr>table_name = ''orders'',
      table_rows = [order_row ''5'' ''OPEN'', order_row ''10'' ''NEW''],
      primary_key = [''id''], key_confidence = Heuristic\<rparr>"

definition orders_target :: Table where
  "orders_target =
     \<lparr>table_name = ''orders'',
      table_rows = [order_row ''7'' ''NEW'', order_row ''5'' ''CLOSED''],
      primary_key = [''id''], key_confidence = Heuristic\<rparr>"

definition orders_diff :: DiffResult where
  "orders_diff =
     \<lparr>missing = [[Some (''10'', KInteger)]],
      extra = [[Some (''7'', KInteger)]],
      mismatches = [([Some (''5'', KInteger)],
                     [(''status'', Some (''OPEN'', KString), Some (''CLOSED'', KString))])],
      summary = (1, 1, 1)\<rparr>"

section \<open>Backend: KeyInferrer\<close>






text \<open>
  Modelled from the spec: the inference oracle of section 6. It answers a request, at
  each attempt, with a suggestion, an error or a timeout.
\<close>

datatype oracle_reply = OracleFailure | OracleTimeout | Suggestion "string list"








section \<open>Backend: the compare flow\<close>

text \<open>
  Modelled from the documentation under src/ (\<open>compare_utils.py\<close> and \<open>main.py\<close> are
  missing). INTERNAL_WORKINGS.md, section 4: "The \<open>call_llm_with_retry\<close> function spawns
  \<open>ollama run llama3:8b\<close> up to 3 times, each with a 120s timeout; failures bubble up as
  HTTP 500." An attempt that runs into its timeout is the reply \<open>LLMTimeout\<close>.
\<close>

datatype llm_reply = LLMFailure | LLMTimeout | LLMAnswer string












section \<open>Notions used in the proofs about the table ordering\<close>

text \<open>
  A graph as \<open>add_edge\<close> builds it; the number of edges into a node that are not yet
  relaxed; the invariant of the generations loop, over the map \<open>m\<close>, the set \<open>R\<close> of
  relaxed edges and the list \<open>L\<close> of the nodes found so far; and a topological order.
\<close>

definition wf_graph :: "DiGraph \<Rightarrow> bool" where
  "wf_graph G \<longleftrightarrow>
     distinct (nodes G) \<and> distinct (edges G) \<and>
     (\<forall>e \<in> set (edges G). fst e \<in> set (nodes G) \<and> snd e \<in> set (nodes G))"

definition cnt :: "DiGraph \<Rightarrow> (string \<times> string) set \<Rightarrow> string \<Rightarrow> nat" where
  "cnt G R v = card {e \<in> set (edges G). snd e = v \<and> e \<notin> R}"

definition kahn_inv ::
  "DiGraph \<Rightarrow> indegree_map \<Rightarrow> (string \<times> string) set \<Rightarrow> string list \<Rightarrow> bool" where
  "kahn_inv G m R L \<longleftrightarrow>
     distinct (map fst m) \<and> distinct L \<and> R \<subseteq> set (edges G) \<and>
     fst ` set m \<inter> set L = {} \<and> fst ` set m \<union> set L = set (nodes G) \<and>
     (\<forall>p \<in> set m. snd p = cnt G R (fst p) \<and> 0 < snd p) \<and>
     (\<forall>v \<in> set L. cnt G R v = 0) \<and>
     (\<forall>e \<in> R. fst e \<in> set L \<and> (snd e \<in> set L \<longrightarrow> rank L (fst e) < rank L (snd e)))"

definition valid_order :: "DiGraph \<Rightarrow> string list \<Rightarrow> bool" where
  "valid_order G L \<longleftrightarrow>
     distinct L \<and> set L = set (nodes G) \<and>
     (\<forall>e \<in> set (edges G). rank L (fst e) < rank L (snd e))"

section \<open>Properties of the frontend components\<close>

lemma js_le_Finite_iff [simp]:
  "js_le (Finite a) x = (x = PosInfinity \<or> (\<exists>b. x = Finite b \<and> a \<le> b))"
  by (cases x) auto

lemma clampedProgress_Finite:
  "clampedProgress (Finite x) = Finite (min 100 (max 0 x))"
  by (auto simp: clampedProgress_def Math_min_def Math_max_def min_def max_def)

lemma clampedProgress_PosInfinity: "clampedProgress PosInfinity = Finite 100"
  by (simp add: clampedProgress_def Math_min_def Math_max_def)

lemma clampedProgress_NegInfinity: "clampedProgress NegInfinity = Finite 0"
  by (simp add: clampedProgress_def Math_min_def Math_max_def)

lemma clampedProgress_NaN: "clampedProgress NaN = NaN"
  by (simp add: clampedProgress_def Math_min_def Math_max_def)

text \<open>
  Claim C8. For every input that is a number (any finite value or an infinity; NaN, which
  both \<open>Math.max\<close> and \<open>Math.min\<close> hand through, is not one), the enhanced ProgressBar
  renders a fill width equal to the input clamped into \<open>[0, 100]\<close>: the width lies
  between 0 and 100, inputs at or below 0 give 0, inputs at or above 100 give 100, and
  inputs in between are rendered as they are.
\<close>

theorem progress_fill_width_clamped:
  assumes "progress \<noteq> NaN"
  shows "js_le (Finite 0) (fill_width_percent progress)
       \<and> js_le (fill_width_percent progress) (Finite 100)
       \<and> (js_le progress (Finite 0) \<longrightarrow> fill_width_percent progress = Finite 0)
       \<and> (js_le (Finite 100) progress \<longrightarrow> fill_width_percent progress = Finite 100)
       \<and> (js_le (Finite 0) progress \<and> js_le progress (Finite 100)
            \<longrightarrow> fill_width_percent progress = progress)"
proof (cases progress)
  case NaN
  with assms show ?thesis by simp
next
  case NegInfinity
  then show ?thesis
    by (simp add: fill_width_percent_def clampedProgress_NegInfinity)
next
  case (Finite x)
  then show ?thesis
    by (auto simp: fill_width_percent_def clampedProgress_Finite min_def max_def)
next
  case PosInfinity
  then show ?thesis
    by (simp add: fill_width_percent_def clampedProgress_PosInfinity)
qed

theorem progress_fill_width_clamped_witness:
  "Finite 150 \<noteq> NaN \<and> js_le (Finite 100) (Finite 150)
   \<and> fill_width_percent (Finite 150) = Finite 100
   \<and> js_le (Finite 0) (fill_width_percent (Finite 150))
   \<and> js_le (fill_width_percent (Finite 150)) (Finite 100)"
  using progress_fill_width_clamped [of "Finite 150"] by simp

lemma removeFile_offset:
  "i < length xs \<Longrightarrow>
   map snd (filter (\<lambda>(index, _). index \<noteq> n + i) (enumerate n xs))
     = take i xs @ drop (Suc i) xs"
proof (induction xs arbitrary: n i)
  case Nil
  then show ?case by simp
next
  case (Cons x xs)
  show ?case
  proof (cases i)
    case 0
    have "filter (\<lambda>(index, _). index \<noteq> n) (enumerate (Suc n) xs) = enumerate (Suc n) xs"
      by (rule filter_True) (auto simp: in_set_enumerate_eq)
    with 0 show ?thesis by simp
  next
    case (Suc j)
    with Cons.prems have "j < length xs" by simp
    from Cons.IH [OF this, of "Suc n"] Suc show ?thesis by simp
  qed
qed

text \<open>
  Claim C9. For every file list and every valid index \<open>i\<close>, \<open>removeFile\<close> hands
  \<open>setFiles\<close> the files before position \<open>i\<close> followed by the files after it, in their
  original order (exactly the file at \<open>i\<close> is gone); and dropping new files hands
  \<open>setFiles\<close> a list that starts with the files already selected, unchanged and in
  order, followed by the accepted files.
\<close>

theorem dropzone_remove_and_append:
  "(i < length files \<longrightarrow>
      removeFile files i = take i files @ drop (Suc i) files
    \<and> length (removeFile files i) = length files - 1)
   \<and> take (length files) (onDrop files acceptedFiles) = files
   \<and> drop (length files) (onDrop files acceptedFiles) = acceptedFiles"
  using removeFile_offset [of i files 0]
  by (auto simp: removeFile_def onDrop_def)

theorem dropzone_remove_and_append_witness:
  "(1::nat) < length [''a.sql'', ''b.sql'', ''c.sql'']
   \<and> removeFile [''a.sql'', ''b.sql'', ''c.sql''] 1 = [''a.sql'', ''c.sql'']
   \<and> onDrop [''a.sql'', ''c.sql''] [''d.sql''] = [''a.sql'', ''c.sql'', ''d.sql'']"
  using dropzone_remove_and_append [of 1 "[''a.sql'', ''b.sql'', ''c.sql'']" "[]"]
  by (simp add: onDrop_def)

lemma DIRECTION_OPTIONS_values:
  "k < length DIRECTION_OPTIONS \<Longrightarrow> is_direction (opt_value (DIRECTION_OPTIONS ! k))"
  by (cases k) (auto simp: DIRECTION_OPTIONS_def is_direction_def)

lemma on_mount_direction:
  "direction (on_mount s) =
     (case localStorage s STORAGE_KEY of
        None \<Rightarrow> direction s
      | Some v \<Rightarrow> if is_direction v then v else direction s)"
  by (auto simp: on_mount_def is_direction_def split: option.splits)

lemma on_mount_localStorage: "localStorage (on_mount s) = localStorage s"
  by (auto simp: on_mount_def split: option.splits)

lemma step_preserves_direction:
  "is_direction (direction s) \<Longrightarrow> is_direction (direction (step e s))"
  by (cases e)
     (auto simp: on_mount_direction handleChange_def DIRECTION_OPTIONS_values
           split: option.splits)

lemma run_preserves_direction:
  "is_direction (direction s) \<Longrightarrow> is_direction (direction (run es s))"
  by (induction es arbitrary: s) (auto intro: step_preserves_direction)

lemma own_event_writes:
  "own_event e \<Longrightarrow>
   localStorage (step e s) = localStorage s
   \<or> (\<exists>v. is_direction v \<and> localStorage (step e s) = (localStorage s)(STORAGE_KEY \<mapsto> v))"
proof (cases e)
  case Mount
  then show ?thesis by (simp add: on_mount_localStorage)
next
  case (Click k)
  show ?thesis
  proof (cases "k < length DIRECTION_OPTIONS")
    case True
    then have "is_direction (opt_value (DIRECTION_OPTIONS ! k))"
      by (rule DIRECTION_OPTIONS_values)
    moreover have "localStorage (step e s) =
        (localStorage s)(STORAGE_KEY \<mapsto> opt_value (DIRECTION_OPTIONS ! k))"
      using Click True by (simp add: handleChange_def)
    ultimately show ?thesis by blast
  next
    case False
    with Click show ?thesis by simp
  qed
qed simp_all

text \<open>
  Claim C10. The conversion-direction state is always \<open>pg2ora\<close> or \<open>ora2pg\<close>: whatever
  the storage holds at the start and whatever sequence of mounts, clicks and outside
  changes of the storage follows, the direction is one of the two values; an event of
  the component either leaves \<open>localStorage\<close> alone or stores one of the two values
  under \<open>STORAGE_KEY\<close>; and the mount effect takes over the stored value if it is exactly
  one of the two, and otherwise leaves the direction as it was.
\<close>

theorem direction_always_valid:
  "is_direction (direction (run es (initial_state store)))
   \<and> (own_event e \<longrightarrow>
        localStorage (step e s) = localStorage s
        \<or> (\<exists>v. is_direction v \<and> localStorage (step e s) = (localStorage s)(STORAGE_KEY \<mapsto> v)))
   \<and> direction (on_mount s) =
        (case localStorage s STORAGE_KEY of
           None \<Rightarrow> direction s
         | Some v \<Rightarrow> if v = ''pg2ora'' \<or> v = ''ora2pg'' then v else direction s)"
proof -
  have "is_direction (direction (initial_state store))"
    by (simp add: initial_state_def is_direction_def)
  then have "is_direction (direction (run es (initial_state store)))"
    by (rule run_preserves_direction)
  moreover have "direction (on_mount s) =
        (case localStorage s STORAGE_KEY of
           None \<Rightarrow> direction s
         | Some v \<Rightarrow> if v = ''pg2ora'' \<or> v = ''ora2pg'' then v else direction s)"
    by (simp add: on_mount_direction is_direction_def split: option.splits)
  ultimately show ?thesis
    using own_event_writes [of e s] by blast
qed

theorem direction_always_valid_witness:
  "own_event (Click 1)
   \<and> direction (run [StorageSet STORAGE_KEY ''sideways'', Mount, Click 1, Mount]
                    (initial_state Map.empty)) = ''ora2pg''
   \<and> direction (on_mount \<lparr>direction = ''pg2ora'',
                           localStorage = [STORAGE_KEY \<mapsto> ''sideways'']\<rparr>) = ''pg2ora''
   \<and> localStorage (step (Click 1) (initial_state Map.empty)) STORAGE_KEY = Some ''ora2pg''"
  using direction_always_valid
    [of "[StorageSet STORAGE_KEY ''sideways'', Mount, Click 1, Mount]" Map.empty "Click 1"
        "\<lparr>direction = ''pg2ora'', localStorage = [STORAGE_KEY \<mapsto> ''sideways'']\<rparr>"]
  by (simp add: initial_state_def on_mount_def handleChange_def DIRECTION_OPTIONS_def
                STORAGE_KEY_def is_direction_def)

section \<open>Properties of the table ordering\<close>

lemma rank_append_in: "x \<in> set L \<Longrightarrow> rank (L @ M) x = rank L x"
  by (simp add: rank_def takeWhile_append1)

lemma rank_append_notin: "x \<notin> set L \<Longrightarrow> rank (L @ [x]) x = length L"
  unfolding rank_def by (induction L) auto

lemma rank_less_length: "x \<in> set L \<Longrightarrow> rank L x < length L"
  unfolding rank_def by (induction L) auto

lemma cnt_pos: "e \<in> set (edges G) \<Longrightarrow> e \<notin> R \<Longrightarrow> 0 < cnt G R (snd e)"
proof -
  assume "e \<in> set (edges G)" "e \<notin> R"
  define A where "A = {e' \<in> set (edges G). snd e' = snd e \<and> e' \<notin> R}"
  have "e \<in> A" using \<open>e \<in> set (edges G)\<close> \<open>e \<notin> R\<close> by (simp add: A_def)
  moreover have "finite A" by (simp add: A_def)
  ultimately have "0 < card A" using card_gt_0_iff by blast
  then show ?thesis by (simp add: cnt_def A_def)
qed

lemma cnt_zero_all_relaxed:
  assumes "cnt G R v = 0" and "e \<in> set (edges G)" and "snd e = v"
  shows "e \<in> R"
proof (rule ccontr)
  assume "e \<notin> R"
  with assms(2) have "0 < cnt G R (snd e)" by (rule cnt_pos)
  with assms(1,3) show False by simp
qed

lemma cnt_insert_same:
  assumes "e \<in> set (edges G)" and "e \<notin> R"
  shows "cnt G (insert e R) (snd e) = cnt G R (snd e) - 1"
proof -
  define A where "A = {e' \<in> set (edges G). snd e' = snd e \<and> e' \<notin> R}"
  define B where "B = {e' \<in> set (edges G). snd e' = snd e \<and> e' \<notin> insert e R}"
  have "B = A - {e}" by (auto simp: A_def B_def)
  moreover have "e \<in> A" using assms by (simp add: A_def)
  ultimately have "card B = card A - 1" by (simp add: card_Diff_singleton)
  then show ?thesis by (simp only: cnt_def A_def B_def)
qed

lemma cnt_insert_other:
  assumes "snd e \<noteq> v"
  shows "cnt G (insert e R) v = cnt G R v"
proof -
  have "{e' \<in> set (edges G). snd e' = v \<and> e' \<notin> insert e R}
        = {e' \<in> set (edges G). snd e' = v \<and> e' \<notin> R}" using assms by auto
  then show ?thesis by (simp only: cnt_def)
qed

lemma kahn_invD:
  assumes "kahn_inv G m R L"
  shows "distinct (map fst m)" and "distinct L" and "R \<subseteq> set (edges G)"
    and "fst ` set m \<inter> set L = {}" and "fst ` set m \<union> set L = set (nodes G)"
    and "\<forall>p \<in> set m. snd p = cnt G R (fst p) \<and> 0 < snd p"
    and "\<forall>v \<in> set L. cnt G R v = 0"
    and "\<forall>e \<in> R. fst e \<in> set L \<and> (snd e \<in> set L \<longrightarrow> rank L (fst e) < rank L (snd e))"
  using assms by (simp_all only: kahn_inv_def) (elim conjE, assumption)+

lemma relax_one_lookup:
  assumes inv: "kahn_inv G m R L" and wf: "wf_graph G"
    and e: "(u, c) \<in> set (edges G)" and nr: "(u, c) \<notin> R"
  shows "c \<notin> set L" and "c \<in> fst ` set m"
    and "\<exists>d. map_of m c = Some d \<and> d = cnt G R c \<and> 0 < d"
proof -
  note I = kahn_invD [OF inv]
  have cpos: "0 < cnt G R c" using cnt_pos [OF e nr] by simp
  show cL: "c \<notin> set L"
  proof
    assume "c \<in> set L"
    with I(7) have "cnt G R c = 0" by blast
    with cpos show False by simp
  qed
  have "snd (u, c) \<in> set (nodes G)" using wf e unfolding wf_graph_def by blast
  then have "c \<in> set (nodes G)" by simp
  then show cm: "c \<in> fst ` set m" using I(5) cL by blast
  then obtain p where p: "p \<in> set m" "fst p = c" by blast
  then have "(c, snd p) \<in> set m" by (metis prod.collapse)
  then have "map_of m c = Some (snd p)" using I(1) by simp
  moreover have "snd p = cnt G R c \<and> 0 < snd p" using I(6) p by blast
  ultimately show "\<exists>d. map_of m c = Some d \<and> d = cnt G R c \<and> 0 < d" by blast
qed

lemma relax_one_zero:
  assumes inv: "kahn_inv G m R L" and wf: "wf_graph G"
    and u: "u \<in> set L" and e: "(u, c) \<in> set (edges G)" and nr: "(u, c) \<notin> R"
    and d: "cnt G R c = 1"
  shows "kahn_inv G (AList.delete c m) (insert (u, c) R) (L @ [c])"
proof -
  note I = kahn_invD [OF inv]
  note lk = relax_one_lookup [OF inv wf e nr]
  let ?R = "insert (u, c) R"
  have cnt_c: "cnt G ?R c = 0" using cnt_insert_same [OF e nr] d by simp
  have cnt_o: "\<forall>v. v \<noteq> c \<longrightarrow> cnt G ?R v = cnt G R v"
    using cnt_insert_other [of "(u, c)"] by simp
  have "set (map fst (AList.delete c m)) = set (map fst m) - {c}"
    by (simp add: AList.delete_keys)
  then have k: "fst ` set (AList.delete c m) = fst ` set m - {c}" by simp
  have s: "set (AList.delete c m) \<subseteq> set m" by (auto simp: AList.delete_eq)
  have 1: "distinct (map fst (AList.delete c m))" using I(1) by (rule AList.distinct_delete)
  have 2: "distinct (L @ [c])" using I(2) lk(1) by simp
  have 3: "?R \<subseteq> set (edges G)" using I(3) e by simp
  have 4: "fst ` set (AList.delete c m) \<inter> set (L @ [c]) = {}" using k I(4) by auto
  have 5: "fst ` set (AList.delete c m) \<union> set (L @ [c]) = set (nodes G)"
    using k I(5) lk(2) by auto
  have 6: "\<forall>p \<in> set (AList.delete c m). snd p = cnt G ?R (fst p) \<and> 0 < snd p"
  proof
    fix p assume p: "p \<in> set (AList.delete c m)"
    then have "fst p \<in> fst ` set m - {c}" using k by blast
    then have "fst p \<noteq> c" by simp
    then have "cnt G ?R (fst p) = cnt G R (fst p)" using cnt_o by blast
    moreover have "p \<in> set m" using p s by blast
    then have "snd p = cnt G R (fst p) \<and> 0 < snd p" using I(6) by blast
    ultimately show "snd p = cnt G ?R (fst p) \<and> 0 < snd p" by simp
  qed
  have 7: "\<forall>v \<in> set (L @ [c]). cnt G ?R v = 0"
  proof
    fix v assume "v \<in> set (L @ [c])"
    then consider "v = c" | "v \<in> set L" "v \<noteq> c" using lk(1) by auto
    then show "cnt G ?R v = 0"
    proof cases
      case 1
      then show ?thesis using cnt_c by simp
    next
      case 2
      then have "cnt G ?R v = cnt G R v" using cnt_o by blast
      then show ?thesis using I(7) 2(1) by simp
    qed
  qed
  have 8: "\<forall>e \<in> ?R. fst e \<in> set (L @ [c])
             \<and> (snd e \<in> set (L @ [c]) \<longrightarrow> rank (L @ [c]) (fst e) < rank (L @ [c]) (snd e))"
  proof
    fix e' assume e': "e' \<in> ?R"
    have fL: "fst e' \<in> set L"
    proof (cases "e' = (u, c)")
      case True
      then show ?thesis using u by simp
    next
      case False
      then have "e' \<in> R" using e' by simp
      then show ?thesis using I(8) by blast
    qed
    have "rank (L @ [c]) (fst e') < rank (L @ [c]) (snd e')" if "snd e' \<in> set (L @ [c])"
    proof (cases "snd e' = c")
      case True
      have "rank (L @ [c]) (fst e') = rank L (fst e')" using fL by (rule rank_append_in)
      moreover have "rank L (fst e') < length L" using fL by (rule rank_less_length)
      moreover have "rank (L @ [c]) c = length L" using lk(1) by (rule rank_append_notin)
      ultimately show ?thesis using True by simp
    next
      case False
      then have sL: "snd e' \<in> set L" using that by simp
      have "e' \<noteq> (u, c)" using False by auto
      then have "e' \<in> R" using e' by simp
      then have "rank L (fst e') < rank L (snd e')" using I(8) sL by blast
      then show ?thesis using fL sL by (simp add: rank_append_in)
    qed
    then show "fst e' \<in> set (L @ [c])
             \<and> (snd e' \<in> set (L @ [c]) \<longrightarrow> rank (L @ [c]) (fst e') < rank (L @ [c]) (snd e'))"
      using fL by simp
  qed
  show ?thesis unfolding kahn_inv_def by (intro conjI 1 2 3 4 5 6 7 8)
qed

lemma relax_one_pos:
  assumes inv: "kahn_inv G m R L" and wf: "wf_graph G"
    and u: "u \<in> set L" and e: "(u, c) \<in> set (edges G)" and nr: "(u, c) \<notin> R"
    and d: "cnt G R c \<noteq> 1"
  shows "kahn_inv G (AList.update c (cnt G R c - 1) m) (insert (u, c) R) L"
proof -
  note I = kahn_invD [OF inv]
  note lk = relax_one_lookup [OF inv wf e nr]
  let ?R = "insert (u, c) R"
  let ?m = "AList.update c (cnt G R c - 1) m"
  have cpos: "0 < cnt G R c" using cnt_pos [OF e nr] by simp
  have cnt_c: "cnt G ?R c = cnt G R c - 1" using cnt_insert_same [OF e nr] by simp
  have cnt_o: "\<forall>v. v \<noteq> c \<longrightarrow> cnt G ?R v = cnt G R v"
    using cnt_insert_other [of "(u, c)"] by simp
  have k: "fst ` set ?m = fst ` set m"
    using lk(2) by (auto simp: AList.dom_update)
  have 1: "distinct (map fst ?m)" using I(1) by (rule AList.distinct_update)
  have 3: "?R \<subseteq> set (edges G)" using I(3) e by simp
  have 4: "fst ` set ?m \<inter> set L = {}" using k I(4) by simp
  have 5: "fst ` set ?m \<union> set L = set (nodes G)" using k I(5) by simp
  have 6: "\<forall>p \<in> set ?m. snd p = cnt G ?R (fst p) \<and> 0 < snd p"
  proof
    fix p assume p: "p \<in> set ?m"
    then have "(fst p, snd p) \<in> set ?m" by simp
    then have "map_of ?m (fst p) = Some (snd p)" using 1 by (rule map_of_is_SomeI [rotated])
    then have *: "((map_of m)(c \<mapsto> cnt G R c - 1)) (fst p) = Some (snd p)"
      by (simp add: AList.update_conv')
    show "snd p = cnt G ?R (fst p) \<and> 0 < snd p"
    proof (cases "fst p = c")
      case True
      with * have "snd p = cnt G R c - 1" by simp
      with True cnt_c d cpos show ?thesis by simp
    next
      case False
      with * have "map_of m (fst p) = Some (snd p)" by simp
      then have "(fst p, snd p) \<in> set m" by (rule map_of_SomeD)
      then have "snd (fst p, snd p) = cnt G R (fst (fst p, snd p)) \<and> 0 < snd (fst p, snd p)"
        using I(6) by blast
      moreover have "cnt G ?R (fst p) = cnt G R (fst p)" using cnt_o False by blast
      ultimately show ?thesis by simp
    qed
  qed
  have 7: "\<forall>v \<in> set L. cnt G ?R v = 0"
  proof
    fix v assume v: "v \<in> set L"
    then have "v \<noteq> c" using lk(1) by auto
    then have "cnt G ?R v = cnt G R v" using cnt_o by blast
    then show "cnt G ?R v = 0" using I(7) v by simp
  qed
  have 8: "\<forall>e \<in> ?R. fst e \<in> set L \<and> (snd e \<in> set L \<longrightarrow> rank L (fst e) < rank L (snd e))"
  proof
    fix e' assume e': "e' \<in> ?R"
    show "fst e' \<in> set L \<and> (snd e' \<in> set L \<longrightarrow> rank L (fst e') < rank L (snd e'))"
    proof (cases "e' = (u, c)")
      case True
      then show ?thesis using u lk(1) by simp
    next
      case False
      then have "e' \<in> R" using e' by simp
      then show ?thesis using I(8) by blast
    qed
  qed
  show ?thesis unfolding kahn_inv_def by (intro conjI 1 I(2) 3 4 5 6 7 8)
qed

lemma relax_children_inv:
  assumes wf: "wf_graph G" and u: "u \<in> set P" and "distinct cs"
    and "\<forall>c \<in> set cs. (u, c) \<in> set (edges G) \<and> (u, c) \<notin> R"
    and "kahn_inv G m R (P @ z)"
  shows "\<exists>m' z'. relax_children cs m z = Inr (m', z')
           \<and> kahn_inv G m' (R \<union> {u} \<times> set cs) (P @ z')"
  using assms(3-)
proof (induction cs arbitrary: m z R)
  case Nil
  then show ?case by simp
next
  case (Cons c cs)
  have e: "(u, c) \<in> set (edges G)" and nr: "(u, c) \<notin> R" using Cons.prems(2) by simp_all
  have uL: "u \<in> set (P @ z)" using u by simp
  from relax_one_lookup(3) [OF Cons.prems(3) wf e nr]
  obtain d where d: "map_of m c = Some d" "d = cnt G R c" "0 < d" by blast
  have rest: "\<forall>c' \<in> set cs. (u, c') \<in> set (edges G) \<and> (u, c') \<notin> insert (u, c) R"
    using Cons.prems(1,2) by auto
  have dcs: "distinct cs" using Cons.prems(1) by simp
  have Req: "insert (u, c) R \<union> {u} \<times> set cs = R \<union> {u} \<times> set (c # cs)" by auto
  show ?case
  proof (cases "d - 1 = 0")
    case True
    then have "cnt G R c = 1" using d by simp
    from relax_one_zero [OF Cons.prems(3) wf uL e nr this]
    have "kahn_inv G (AList.delete c m) (insert (u, c) R) (P @ (z @ [c]))" by simp
    from Cons.IH [OF dcs rest this] Req show ?thesis using d True by simp
  next
    case False
    then have "cnt G R c \<noteq> 1" using d by simp
    from relax_one_pos [OF Cons.prems(3) wf uL e nr this]
    have "kahn_inv G (AList.update c (d - 1) m) (insert (u, c) R) (P @ z)" using d by simp
    from Cons.IH [OF dcs rest this] Req show ?thesis using d False by simp
  qed
qed

lemma neighbors_props:
  assumes "wf_graph G"
  shows "distinct (neighbors G n)" and "set (neighbors G n) = {c. (n, c) \<in> set (edges G)}"
proof -
  have "distinct (edges G)" using assms by (simp add: wf_graph_def)
  then have "distinct (filter (\<lambda>e. fst e = n) (edges G))" by simp
  moreover have "inj_on snd (set (filter (\<lambda>e. fst e = n) (edges G)))"
    by (auto simp: inj_on_def prod_eq_iff)
  ultimately show "distinct (neighbors G n)"
    unfolding neighbors_def by (simp add: distinct_map)
  show "set (neighbors G n) = {c. (n, c) \<in> set (edges G)}"
    unfolding neighbors_def by force
qed

lemma process_generation_inv:
  assumes wf: "wf_graph G" and "set ns \<subseteq> set P" and "distinct ns"
    and "\<forall>e \<in> R. fst e \<notin> set ns"
    and "kahn_inv G m R (P @ z)"
  shows "\<exists>m' z'. process_generation G ns m z = Inr (m', z')
           \<and> kahn_inv G m' (R \<union> {e \<in> set (edges G). fst e \<in> set ns}) (P @ z')"
  using assms(2-)
proof (induction ns arbitrary: m z R)
  case Nil
  then show ?case by simp
next
  case (Cons n ns)
  have nP: "n \<in> set P" using Cons.prems(1) by simp
  have "fst ` set m \<union> set (P @ z) = set (nodes G)"
    using kahn_invD(5) [OF Cons.prems(4)] .
  then have nG: "n \<in> set (nodes G)" using nP by auto
  have fresh: "\<forall>c \<in> set (neighbors G n). (n, c) \<in> set (edges G) \<and> (n, c) \<notin> R"
    using neighbors_props(2) [OF wf, of n] Cons.prems(3) by fastforce
  from relax_children_inv [OF wf nP neighbors_props(1) [OF wf] fresh Cons.prems(4)]
  obtain m1 z1 where r: "relax_children (neighbors G n) m z = Inr (m1, z1)"
    and inv1: "kahn_inv G m1 (R \<union> {n} \<times> set (neighbors G n)) (P @ z1)" by blast
  let ?R1 = "R \<union> {n} \<times> set (neighbors G n)"
  have R1: "?R1 = R \<union> {e \<in> set (edges G). fst e = n}"
    using neighbors_props(2) [OF wf, of n] by auto
  have a1: "set ns \<subseteq> set P" using Cons.prems(1) by simp
  have a2: "distinct ns" using Cons.prems(2) by simp
  have a3: "\<forall>e \<in> ?R1. fst e \<notin> set ns" using Cons.prems(2,3) by auto
  from Cons.IH [OF a1 a2 a3 inv1]
  obtain m' z' where p: "process_generation G ns m1 z1 = Inr (m', z')"
    and inv': "kahn_inv G m' (?R1 \<union> {e \<in> set (edges G). fst e \<in> set ns}) (P @ z')" by blast
  have "?R1 \<union> {e \<in> set (edges G). fst e \<in> set ns}
        = R \<union> {e \<in> set (edges G). fst e \<in> set (n # ns)}"
    unfolding R1 by auto
  with inv' have "kahn_inv G m' (R \<union> {e \<in> set (edges G). fst e \<in> set (n # ns)}) (P @ z')"
    by simp
  then show ?case using nG r p by simp
qed

lemma finite_no_source_cyclic:
  assumes "finite S" and "S \<noteq> {}" and "\<forall>v \<in> S. \<exists>u \<in> S. (u, v) \<in> r"
  shows "\<not> acyclic r"
proof
  assume "acyclic r"
  let ?r = "r \<inter> S \<times> S"
  have "acyclic ?r" using \<open>acyclic r\<close> by (rule acyclic_subset) simp
  moreover have "finite ?r" using assms(1) by simp
  ultimately have "wf ?r" by (simp add: finite_acyclic_wf)
  from assms(2) obtain x where "x \<in> S" by blast
  with \<open>wf ?r\<close> obtain z where "z \<in> S" and min: "\<And>y. (y, z) \<in> ?r \<Longrightarrow> y \<notin> S"
    by (rule wfE_min) blast
  from assms(3) \<open>z \<in> S\<close> obtain u where "u \<in> S" "(u, z) \<in> r" by blast
  then have "(u, z) \<in> ?r" using \<open>z \<in> S\<close> by simp
  then have "u \<notin> S" by (rule min)
  with \<open>u \<in> S\<close> show False by simp
qed

lemma valid_order_acyclic:
  assumes "valid_order G L"
  shows "acyclic (set (edges G))"
proof (rule acyclicI, rule allI)
  fix x
  have "(a, b) \<in> (set (edges G))\<^sup>+ \<Longrightarrow> rank L a < rank L b" for a b
  proof (induction rule: trancl_induct)
    case (base y)
    then show ?case using assms unfolding valid_order_def by force
  next
    case (step y z)
    then have "rank L y < rank L z" using assms unfolding valid_order_def by force
    with step.IH show ?case by simp
  qed
  then show "(x, x) \<notin> (set (edges G))\<^sup>+" by auto
qed

lemma generations_from_correct:
  assumes "wf_graph G"
    and "kahn_inv G m R (P @ z)" and "R = {e \<in> set (edges G). fst e \<in> set P}"
  shows "(\<exists>gens. generations_from G m z = Inr gens \<and> valid_order G (P @ concat gens))
       \<or> (generations_from G m z = Inl NetworkXUnfeasible \<and> \<not> acyclic (set (edges G)))"
  using assms
proof (induction G m z arbitrary: P R rule: generations_from.induct)
  case (1 G m z)
  note wf = "1.prems"(1)
  note I = kahn_invD [OF "1.prems"(2)]
  show ?case
  proof (cases "z = []")
    case True
    note z = True
    show ?thesis
    proof (cases "m = []")
      case True
      have "set P = set (nodes G)" using I(5) True z by simp
      moreover have "distinct P" using I(2) z by simp
      moreover have "\<forall>e \<in> set (edges G). rank P (fst e) < rank P (snd e)"
      proof
        fix e assume e: "e \<in> set (edges G)"
        then have "snd e \<in> set (nodes G)" using wf unfolding wf_graph_def by blast
        then have sP: "snd e \<in> set P" using \<open>set P = set (nodes G)\<close> by simp
        then have "cnt G R (snd e) = 0" using I(7) z by simp
        then have "e \<in> R" using e by (rule cnt_zero_all_relaxed) simp
        then show "rank P (fst e) < rank P (snd e)" using I(8) sP z by auto
      qed
      ultimately have "valid_order G (P @ concat [])" by (simp add: valid_order_def)
      moreover have "generations_from G m z = Inr []" using z True by simp
      ultimately show ?thesis by blast
    next
      case False
      let ?S = "fst ` set m"
      have "finite ?S" by simp
      moreover have "?S \<noteq> {}" using False by simp
      moreover have "\<forall>v \<in> ?S. \<exists>u \<in> ?S. (u, v) \<in> set (edges G)"
      proof
        fix v assume "v \<in> ?S"
        then obtain p where p: "p \<in> set m" "fst p = v" by blast
        then have "0 < cnt G R v" using I(6) by force
        then have "{e \<in> set (edges G). snd e = v \<and> e \<notin> R} \<noteq> {}"
          unfolding cnt_def by (metis card.empty less_numeral_extra(3))
        then obtain e where e: "e \<in> set (edges G)" "snd e = v" "e \<notin> R" by blast
        then have "fst e \<notin> set P" using "1.prems"(3) by simp
        moreover have "fst e \<in> set (nodes G)" using wf e(1) unfolding wf_graph_def by blast
        ultimately have "fst e \<in> ?S" using I(5) z by auto
        moreover have "(fst e, v) \<in> set (edges G)" using e(1,2) by (metis prod.collapse)
        ultimately show "\<exists>u \<in> ?S. (u, v) \<in> set (edges G)" by blast
      qed
      ultimately have "\<not> acyclic (set (edges G))" by (rule finite_no_source_cyclic)
      moreover have "generations_from G m z = Inl NetworkXUnfeasible" using z False by simp
      ultimately show ?thesis by blast
    qed
  next
    case False
    have inv0: "kahn_inv G m R ((P @ z) @ [])" using "1.prems"(2) by simp
    have d: "distinct z" and PZ: "set P \<inter> set z = {}" using I(2) by auto
    have fresh: "\<forall>e \<in> R. fst e \<notin> set z" using "1.prems"(3) PZ by auto
    from process_generation_inv [OF wf _ d fresh inv0]
    obtain m' z' where p: "process_generation G z m [] = Inr (m', z')"
      and inv': "kahn_inv G m' (R \<union> {e \<in> set (edges G). fst e \<in> set z}) ((P @ z) @ z')"
      by auto
    have R': "R \<union> {e \<in> set (edges G). fst e \<in> set z}
              = {e \<in> set (edges G). fst e \<in> set (P @ z)}"
      using "1.prems"(3) by auto
    from "1.IH" [OF False p refl wf inv' R']
    have "(\<exists>gens. generations_from G m' z' = Inr gens
                 \<and> valid_order G ((P @ z) @ concat gens))
          \<or> (generations_from G m' z' = Inl NetworkXUnfeasible
               \<and> \<not> acyclic (set (edges G)))" .
    then show ?thesis
    proof
      assume "\<exists>gens. generations_from G m' z' = Inr gens
                 \<and> valid_order G ((P @ z) @ concat gens)"
      then obtain gens where g: "generations_from G m' z' = Inr gens"
        and v: "valid_order G ((P @ z) @ concat gens)" by blast
      have "generations_from G m z = Inr (z # gens)"
        using False p g by (subst generations_from.simps) simp
      moreover have "valid_order G (P @ concat (z # gens))" using v by simp
      ultimately show ?thesis by blast
    next
      assume a: "generations_from G m' z' = Inl NetworkXUnfeasible
               \<and> \<not> acyclic (set (edges G))"
      then have "generations_from G m z = Inl NetworkXUnfeasible"
        using False p by (subst generations_from.simps) simp
      with a show ?thesis by blast
    qed
  qed
qed

lemma wf_graph_empty: "wf_graph empty_graph"
  by (simp add: wf_graph_def empty_graph_def)

lemma wf_graph_add_edge: "wf_graph G \<Longrightarrow> wf_graph (add_edge u v G)"
  by (auto simp: wf_graph_def add_edge_def add_node_def Let_def)

lemma wf_graph_add_reference_edges:
  "wf_graph G \<Longrightarrow> wf_graph (add_reference_edges rows_by_table table cols G)"
  by (induction cols arbitrary: G) (simp_all add: wf_graph_add_edge Let_def)

lemma wf_graph_build_graph_from:
  "wf_graph G \<Longrightarrow> build_graph_from rows_by_table ts G = Inr G' \<Longrightarrow> wf_graph G'"
proof (induction ts arbitrary: G)
  case Nil
  then show ?case by simp
next
  case (Cons t ts)
  obtain table rows where t: "t = (table, rows)" by (cases t)
  with Cons.prems(2) obtain r rs where rows: "rows = r # rs" by (cases rows) auto
  have "wf_graph (add_reference_edges rows_by_table table (columns r) G)"
    using Cons.prems(1) by (rule wf_graph_add_reference_edges)
  then show ?case using Cons.IH Cons.prems(2) t rows by simp
qed

lemma wf_graph_build_graph: "build_graph rows_by_table = Inr G \<Longrightarrow> wf_graph G"
  unfolding build_graph_def using wf_graph_empty by (rule wf_graph_build_graph_from)

lemma in_degree_cnt: "wf_graph G \<Longrightarrow> in_degree G v = cnt G {} v"
proof -
  assume "wf_graph G"
  then have "distinct (edges G)" by (simp add: wf_graph_def)
  then have "length (filter (\<lambda>e. snd e = v) (edges G))
             = card {e \<in> set (edges G). snd e = v}"
    by (simp add: distinct_length_filter Int_def conj_commute)
  then show ?thesis by (simp add: in_degree_def cnt_def)
qed

lemma kahn_inv_initial:
  assumes wf: "wf_graph G"
  shows "kahn_inv G (filter (\<lambda>(v, d). d > 0) (map (\<lambda>v. (v, in_degree G v)) (nodes G))) {}
           ([] @ filter (\<lambda>v. in_degree G v = 0) (nodes G))"
proof -
  let ?m = "filter (\<lambda>(v, d). d > 0) (map (\<lambda>v. (v, in_degree G v)) (nodes G))"
  let ?z = "filter (\<lambda>v. in_degree G v = 0) (nodes G)"
  have dn: "distinct (nodes G)" using wf by (simp add: wf_graph_def)
  have mf: "map fst ?m = filter (\<lambda>v. in_degree G v > 0) (nodes G)"
    by (induction "nodes G") (simp_all add: filter_map comp_def)
  have "set (map fst ?m) = set (filter (\<lambda>v. in_degree G v > 0) (nodes G))"
    by (simp only: mf)
  then have keys: "fst ` set ?m = {v \<in> set (nodes G). in_degree G v > 0}"
    by simp
  have 1: "distinct (map fst ?m)" using dn mf by simp
  have 2: "distinct ([] @ ?z)" using dn by simp
  have 3: "{} \<subseteq> set (edges G)" by simp
  have 4: "fst ` set ?m \<inter> set ([] @ ?z) = {}" unfolding keys by auto
  have 5: "fst ` set ?m \<union> set ([] @ ?z) = set (nodes G)" unfolding keys by auto
  have idc: "\<forall>v. cnt G {} v = in_degree G v" using in_degree_cnt [OF wf] by simp
  have 6: "\<forall>p \<in> set ?m. snd p = cnt G {} (fst p) \<and> 0 < snd p"
    unfolding idc [rule_format] by auto
  have 7: "\<forall>v \<in> set ([] @ ?z). cnt G {} v = 0"
    unfolding idc [rule_format] by simp
  have 8: "\<forall>e \<in> {}. fst e \<in> set ([] @ ?z)
             \<and> (snd e \<in> set ([] @ ?z) \<longrightarrow> rank ([] @ ?z) (fst e) < rank ([] @ ?z) (snd e))"
    by simp
  show ?thesis unfolding kahn_inv_def by (intro conjI 1 2 3 4 5 6 7 8)
qed

lemma topological_sort_correct:
  assumes wf: "wf_graph G"
  shows "(\<exists>order. topological_sort G = Inr order \<and> valid_order G order)
       \<or> (topological_sort G = Inl NetworkXUnfeasible \<and> \<not> acyclic (set (edges G)))"
proof -
  have "{} = {e \<in> set (edges G). fst e \<in> set []}" by simp
  from generations_from_correct [OF wf kahn_inv_initial [OF wf] this]
  show ?thesis
    unfolding topological_sort_def topological_generations_def by auto
qed

lemma topological_sort_acyclic_iff:
  assumes wf: "wf_graph G"
  shows "acyclic (set (edges G)) \<longleftrightarrow> (\<exists>order. topological_sort G = Inr order)"
  using topological_sort_correct [OF wf] valid_order_acyclic by fastforce

text \<open>
  Claim C7. For every edge \<open>a \<rightarrow> b\<close> of the dependency graph for which an order is
  produced (the graph is then the resolved one: nothing is removed from it), both tables
  are in the order and the rank of \<open>a\<close> is strictly smaller than the rank of \<open>b\<close>. In the
  example of the spec, table \<open>a\<close> with column \<open>b_id\<close> gives the edge \<open>b \<rightarrow> a\<close>, and \<open>b\<close>
  comes first.
\<close>

theorem topological_validity:
  assumes "build_graph rows_by_table = Inr G"
    and "table_order rows_by_table = Inr order"
    and "(a, b) \<in> set (edges G)"
  shows "a \<in> set order \<and> b \<in> set order \<and> rank order a < rank order b"
proof -
  have wf: "wf_graph G" using assms(1) by (rule wf_graph_build_graph)
  have ts: "topological_sort G = Inr order" using assms(1,2) by (simp add: table_order_def)
  with topological_sort_correct [OF wf] have v: "valid_order G order" by auto
  have "fst (a, b) \<in> set (nodes G) \<and> snd (a, b) \<in> set (nodes G)"
    using wf assms(3) unfolding wf_graph_def by blast
  moreover have "rank order (fst (a, b)) < rank order (snd (a, b))"
    using v assms(3) unfolding valid_order_def by blast
  ultimately show ?thesis using v by (simp add: valid_order_def)
qed

theorem topological_validity_witness:
  "build_graph reference_tables = Inr \<lparr>nodes = [''b'', ''a''], edges = [(''b'', ''a'')]\<rparr>
   \<and> table_order reference_tables = Inr [''b'', ''a'']
   \<and> rank [''b'', ''a''] ''b'' < rank [''b'', ''a''] ''a''"
proof -
  have g: "build_graph reference_tables
             = Inr \<lparr>nodes = [''b'', ''a''], edges = [(''b'', ''a'')]\<rparr>"
    by code_simp
  have t: "table_order reference_tables = Inr [''b'', ''a'']"
    by code_simp
  have e: "(''b'', ''a'') \<in> set (edges \<lparr>nodes = [''b'', ''a''], edges = [(''b'', ''a'')]\<rparr>)"
    by simp
  from topological_validity [OF g t e] g t show ?thesis by simp
qed

text \<open>
  Claim C4, as the code has it. The ordering is a plain \<open>nx.topological_sort\<close>: no edge
  is removed and no warning is issued. For the two tables that refer to each other the
  call raises \<open>NetworkXUnfeasible\<close>, so no order is produced.
\<close>

theorem cycle_not_tolerated:
  "table_order cyclic_tables = Inl NetworkXUnfeasible"
  by code_simp

text \<open>
  Claim C4, amended. Once the graph is built, the ordering fails with
  \<open>NetworkXUnfeasible\<close> exactly when the inferred reference edges contain a cycle; when
  they contain none, it produces an order that lists every node of the graph (every table
  that takes part in a reference) exactly once.
\<close>

theorem cycle_is_fatal:
  assumes "build_graph rows_by_table = Inr G"
  shows "(\<not> acyclic (set (edges G)) \<longrightarrow> table_order rows_by_table = Inl NetworkXUnfeasible)
       \<and> (acyclic (set (edges G)) \<longrightarrow>
            (\<exists>order. table_order rows_by_table = Inr order
               \<and> set order = set (nodes G) \<and> distinct order))"
proof -
  have wf: "wf_graph G" using assms by (rule wf_graph_build_graph)
  have t: "table_order rows_by_table = topological_sort G"
    using assms by (simp add: table_order_def)
  from topological_sort_correct [OF wf]
  show ?thesis
  proof
    assume "\<exists>order. topological_sort G = Inr order \<and> valid_order G order"
    then obtain order where o: "topological_sort G = Inr order" "valid_order G order"
      by blast
    then have "acyclic (set (edges G))" using valid_order_acyclic by blast
    moreover have "set order = set (nodes G) \<and> distinct order"
      using o(2) by (simp add: valid_order_def)
    ultimately show ?thesis using t o(1) by simp
  next
    assume "topological_sort G = Inl NetworkXUnfeasible \<and> \<not> acyclic (set (edges G))"
    then show ?thesis using t by simp
  qed
qed

theorem cycle_is_fatal_witness:
  "build_graph cyclic_tables
     = Inr \<lparr>nodes = [''b'', ''a''], edges = [(''b'', ''a''), (''a'', ''b'')]\<rparr>
   \<and> \<not> acyclic (set [(''b'', ''a''), (''a'', ''b'')])
   \<and> table_order cyclic_tables = Inl NetworkXUnfeasible
   \<and> acyclic (set [(''b'', ''a'')])
   \<and> (\<exists>order. table_order reference_tables = Inr order
         \<and> set order = set [''b'', ''a''] \<and> distinct order)"
proof -
  have gc: "build_graph cyclic_tables
              = Inr \<lparr>nodes = [''b'', ''a''], edges = [(''b'', ''a''), (''a'', ''b'')]\<rparr>"
    by code_simp
  have "(''a'', ''b'') \<in> set [(''b'', ''a''), (''a'', ''b'')]"
    and "(''b'', ''a'') \<in> set [(''b'', ''a''), (''a'', ''b'')]" by simp_all
  then have "(''a'', ''a'') \<in> (set [(''b'', ''a''), (''a'', ''b'')])\<^sup>+"
    by (rule trancl_into_trancl [OF r_into_trancl])
  then have cyc: "\<not> acyclic (set [(''b'', ''a''), (''a'', ''b'')])"
    unfolding acyclic_def by blast
  have gr: "build_graph reference_tables
              = Inr \<lparr>nodes = [''b'', ''a''], edges = [(''b'', ''a'')]\<rparr>"
    by code_simp
  have "acyclic ({} :: (string \<times> string) set)"
    by (simp add: acyclic_def)
  then have acy: "acyclic (set [(''b'', ''a'')])"
    by (simp add: acyclic_insert)
  from cycle_is_fatal [OF gc] cyc
  have 1: "table_order cyclic_tables = Inl NetworkXUnfeasible" by simp
  from cycle_is_fatal [OF gr] acy
  have 2: "\<exists>order. table_order reference_tables = Inr order
         \<and> set order = set [''b'', ''a''] \<and> distinct order" by simp
  show ?thesis using gc cyc 1 acy 2 by blast
qed

section \<open>Properties of the DiffEngine\<close>




lemma set_insert_by [simp]: "set (insert_by le x ys) = insert x (set ys)"
  by (induction ys) auto

lemma set_sort_by [simp]: "set (sort_by le xs) = set xs"
  unfolding sort_by_def by (induction xs) auto

lemma distinct_insert_by: "distinct (insert_by le x ys) \<longleftrightarrow> x \<notin> set ys \<and> distinct ys"
  by (induction ys) auto

lemma distinct_sort_by [simp]: "distinct (sort_by le xs) = distinct xs"
  unfolding sort_by_def by (induction xs) (auto simp: distinct_insert_by sort_by_def [symmetric])





lemma build_map_keys:
  "fst ` set (fst (build_map pk rs (m, a))) = fst ` set m \<union> pk_of pk ` set rs"
  by (induction rs arbitrary: m a) (auto simp: Let_def AList.dom_update)

lemma build_map_distinct:
  "distinct (map fst m) \<Longrightarrow> distinct (map fst (fst (build_map pk rs (m, a))))"
  by (induction rs arbitrary: m a) (auto simp: Let_def AList.distinct_update)

lemma key_map_keys: "fst ` set (key_map T) = table_keys T"
  by (simp add: key_map_def table_keys_def build_map_keys)

lemma key_map_distinct: "distinct (map fst (key_map T))"
  by (simp add: key_map_def build_map_distinct)

lemma map_of_None_iff: "map_of m k = None \<longleftrightarrow> k \<notin> fst ` set m"
  by (simp add: map_of_eq_None_iff)

lemma set_missing_keys: "set (missing_keys ms mt ks) = set ks - fst ` set mt"
  by (auto simp: missing_keys_def map_of_None_iff)

lemma set_extra_keys: "set (extra_keys ms mt kt) = set kt - fst ` set ms"
  by (auto simp: extra_keys_def map_of_None_iff)

lemma set_matched_keys: "set (matched_keys ms mt ks) = set ks \<inter> fst ` set mt"
  by (auto simp: matched_keys_def map_of_None_iff)

lemma diff_partition_aux:
  assumes "DiffEngine le excluded source target = Inr (r, an)"
  shows "set (missing r) = table_keys source - table_keys target"
    and "set (extra r) = table_keys target - table_keys source"
    and "set (common_keys le source target) = table_keys source \<inter> table_keys target"
    and "distinct (missing r)" and "distinct (extra r)"
    and "distinct (common_keys le source target)"
proof -
  from assms have r: "r = diff_with_iteration le excluded (key_map source) (key_map target)
       (map fst (key_map source)) (map fst (key_map target))"
    by (auto simp: DiffEngine_def Let_def split: if_splits)
  have ks: "set (map fst (key_map source)) = table_keys source"
    and kt: "set (map fst (key_map target)) = table_keys target"
    using key_map_keys by simp_all
  show "set (missing r) = table_keys source - table_keys target"
    using ks by (simp add: r diff_with_iteration_def Let_def set_missing_keys key_map_keys)
  show "set (extra r) = table_keys target - table_keys source"
    using kt by (simp add: r diff_with_iteration_def Let_def set_extra_keys key_map_keys)
  show "set (common_keys le source target) = table_keys source \<inter> table_keys target"
    using ks by (simp add: common_keys_def set_matched_keys key_map_keys)
  show "distinct (missing r)"
    by (simp add: r diff_with_iteration_def Let_def missing_keys_def key_map_distinct)
  show "distinct (extra r)"
    by (simp add: r diff_with_iteration_def Let_def extra_keys_def key_map_distinct)
  show "distinct (common_keys le source target)"
    by (simp add: common_keys_def matched_keys_def key_map_distinct)
qed

lemma in_compare_rows:
  "d \<in> set (compare_rows ex s t) \<longleftrightarrow>
     (\<exists>c. d = (c, row_value s c, row_value t c) \<and>
        (c \<in> set (columns s) \<or> c \<in> set (columns t)) \<and> c \<notin> set ex \<and> row_value s c \<noteq> row_value t c)"
  by (auto simp: compare_rows_def)

lemma compare_rowsI:
  "c \<in> set (columns s) \<or> c \<in> set (columns t) \<Longrightarrow> c \<notin> set ex \<Longrightarrow>
   row_value s c \<noteq> row_value t c \<Longrightarrow> (c, row_value s c, row_value t c) \<in> set (compare_rows ex s t)"
  by (auto simp: compare_rows_def)

lemma compare_rows_swap: "set (compare_rows ex t s) = swap_diff ` set (compare_rows ex s t)"
proof (intro equalityI subsetI)
  fix d assume "d \<in> set (compare_rows ex t s)"
  then obtain c where c: "d = (c, row_value t c, row_value s c)"
      "c \<in> set (columns t) \<or> c \<in> set (columns s)" "c \<notin> set ex" "row_value t c \<noteq> row_value s c"
    unfolding in_compare_rows by blast
  then have "(c, row_value s c, row_value t c) \<in> set (compare_rows ex s t)"
    by (intro compare_rowsI) auto
  moreover have "d = swap_diff (c, row_value s c, row_value t c)"
    using c(1) by (simp add: swap_diff_def)
  ultimately show "d \<in> swap_diff ` set (compare_rows ex s t)" by (rule rev_image_eqI)
next
  fix d assume "d \<in> swap_diff ` set (compare_rows ex s t)"
  then obtain d' where d': "d' \<in> set (compare_rows ex s t)" "d = swap_diff d'" by blast
  then obtain c where c: "d' = (c, row_value s c, row_value t c)"
      "c \<in> set (columns s) \<or> c \<in> set (columns t)" "c \<notin> set ex" "row_value s c \<noteq> row_value t c"
    unfolding in_compare_rows by blast
  have "d = (c, row_value t c, row_value s c)" using d'(2) c(1) by (simp add: swap_diff_def)
  moreover have "(c, row_value t c, row_value s c) \<in> set (compare_rows ex t s)"
    using c by (intro compare_rowsI) auto
  ultimately show "d \<in> set (compare_rows ex t s)" by simp
qed

lemma compare_rows_Nil_swap: "compare_rows ex t s = [] \<longleftrightarrow> compare_rows ex s t = []"
proof -
  have "set (compare_rows ex t s) = swap_diff ` set (compare_rows ex s t)"
    by (rule compare_rows_swap)
  then have "set (compare_rows ex t s) = {} \<longleftrightarrow> set (compare_rows ex s t) = {}"
    by simp
  then show ?thesis by simp
qed

lemma mismatch_entriesI:
  "k \<in> set ks \<Longrightarrow> map_of ms k = Some s \<Longrightarrow> map_of mt k = Some t \<Longrightarrow>
   compare_rows ex s t \<noteq> [] \<Longrightarrow> (k, compare_rows ex s t) \<in> set (mismatch_entries ex ms mt ks)"
  by (induction ks) (auto simp: Let_def split: option.splits)

lemma mismatch_entriesE:
  assumes "e \<in> set (mismatch_entries ex ms mt ks)"
  obtains k s t where "e = (k, compare_rows ex s t)" and "k \<in> set ks"
    and "map_of ms k = Some s" and "map_of mt k = Some t" and "compare_rows ex s t \<noteq> []"
  using assms
proof (induction ks)
  case Nil
  then show ?case by simp
next
  case (Cons k ks)
  show ?case
  proof (cases "e \<in> set (mismatch_entries ex ms mt ks)")
    case True
    show ?thesis
    proof (rule Cons.IH [OF _ True])
      fix k' s t
      assume "e = (k', compare_rows ex s t)" "k' \<in> set ks" "map_of ms k' = Some s"
        "map_of mt k' = Some t" "compare_rows ex s t \<noteq> []"
      then show thesis using Cons.prems(1) [of k' s t] by simp
    qed
  next
    case False
    with Cons.prems(2) obtain s t where "map_of ms k = Some s" "map_of mt k = Some t"
      "compare_rows ex s t \<noteq> []" "e = (k, compare_rows ex s t)"
      by (auto simp: Let_def split: option.splits if_splits)
    then show ?thesis using Cons.prems(1) [of k s t] by simp
  qed
qed

lemma mismatch_entries_swap:
  assumes "set ks' = set ks"
  shows "entry_content ` set (mismatch_entries ex mt ms ks')
       = entry_content ` swap_entry ` set (mismatch_entries ex ms mt ks)"
proof -
  have c: "entry_content (k, compare_rows ex t s) = entry_content (swap_entry (k, compare_rows ex s t))"
    for k s t
    using compare_rows_swap [of ex t s] by (simp add: entry_content_def swap_entry_def)
  show ?thesis
  proof (intro equalityI subsetI)
    fix x assume "x \<in> entry_content ` set (mismatch_entries ex mt ms ks')"
    then obtain e where e: "e \<in> set (mismatch_entries ex mt ms ks')" "x = entry_content e"
      by blast
    from e(1) obtain k s t where k: "e = (k, compare_rows ex t s)" "k \<in> set ks'"
        "map_of mt k = Some t" "map_of ms k = Some s" "compare_rows ex t s \<noteq> []"
      by (rule mismatch_entriesE)
    have "compare_rows ex s t \<noteq> []" using k(5) compare_rows_Nil_swap by blast
    then have "(k, compare_rows ex s t) \<in> set (mismatch_entries ex ms mt ks)"
      using k(2,3,4) assms by (intro mismatch_entriesI) auto
    then have "swap_entry (k, compare_rows ex s t) \<in> swap_entry ` set (mismatch_entries ex ms mt ks)"
      by (rule imageI)
    moreover have "x = entry_content (swap_entry (k, compare_rows ex s t))"
      using e(2) k(1) c by simp
    ultimately show "x \<in> entry_content ` swap_entry ` set (mismatch_entries ex ms mt ks)"
      by (rule rev_image_eqI)
  next
    fix x assume "x \<in> entry_content ` swap_entry ` set (mismatch_entries ex ms mt ks)"
    then obtain e where e: "e \<in> set (mismatch_entries ex ms mt ks)"
        "x = entry_content (swap_entry e)"
      by blast
    from e(1) obtain k s t where k: "e = (k, compare_rows ex s t)" "k \<in> set ks"
        "map_of ms k = Some s" "map_of mt k = Some t" "compare_rows ex s t \<noteq> []"
      by (rule mismatch_entriesE)
    have "compare_rows ex t s \<noteq> []" using k(5) compare_rows_Nil_swap by blast
    then have "(k, compare_rows ex t s) \<in> set (mismatch_entries ex mt ms ks')"
      using k(2,3,4) assms by (intro mismatch_entriesI) auto
    moreover have "x = entry_content (k, compare_rows ex t s)"
      using e(2) k(1) c by simp
    ultimately show "x \<in> entry_content ` set (mismatch_entries ex mt ms ks')"
      by (rule rev_image_eqI)
  qed
qed

text \<open>
  Claim C1. For a table present on both sides, whenever the DiffEngine gives a result,
  the missing keys, the extra keys and the matched keys together are exactly the keys of
  the source and of the target, and no key is in two of the three lists; the keys of the
  mismatch entries are matched keys.
\<close>

theorem diff_partition:
  assumes "DiffEngine le excluded source target = Inr (r, an)"
  shows "set (missing r) \<union> set (extra r) \<union> set (common_keys le source target)
           = table_keys source \<union> table_keys target
       \<and> set (missing r) \<inter> set (extra r) = {}
       \<and> set (missing r) \<inter> set (common_keys le source target) = {}
       \<and> set (extra r) \<inter> set (common_keys le source target) = {}
       \<and> fst ` set (mismatches r) \<subseteq> set (common_keys le source target)"
proof -
  note a = diff_partition_aux [OF assms]
  have "set (mismatch_entries excluded ms mt ks) \<subseteq> set ks \<times> UNIV" for ms mt ks
    by (induction ks) (auto simp: Let_def split: option.splits)
  then have "fst ` set (mismatch_entries excluded ms mt ks) \<subseteq> set ks" for ms mt ks
    by fastforce
  moreover from assms
  have "mismatches r = mismatch_entries excluded (key_map source) (key_map target)
       (common_keys le source target)"
    by (auto simp: DiffEngine_def Let_def diff_with_iteration_def common_keys_def
             split: if_splits)
  ultimately have "fst ` set (mismatches r) \<subseteq> set (common_keys le source target)" by simp
  then show ?thesis unfolding a(1,2,3) by blast
qed

lemma orders_diff_run:
  "DiffEngine typed_le [] orders_source orders_target = Inr (orders_diff, [])"
  by code_simp

lemma orders_common_keys:
  "common_keys typed_le orders_source orders_target = [[Some (''5'', KInteger)]]"
  by code_simp

theorem diff_partition_witness:
  "DiffEngine typed_le [] orders_source orders_target = Inr (orders_diff, [])
   \<and> {[Some (''10'', KInteger)], [Some (''7'', KInteger)], [Some (''5'', KInteger)]}
       = table_keys orders_source \<union> table_keys orders_target"
  using diff_partition [OF orders_diff_run] orders_diff_run
  by (simp add: orders_common_keys orders_diff_def insert_commute)

text \<open>
  Claim C3. If the DiffEngine gives a result for source and target, it gives one for target
  and source: its missing list is the extra list of the first and its extra list the
  missing list of the first, entry for entry; and its mismatch entries are those of the
  first with the same keys and columns, each pair of values exchanged.
\<close>

theorem diff_symmetry:
  assumes "DiffEngine le excluded source target = Inr (r, an)"
  shows "\<exists>r' an'. DiffEngine le excluded target source = Inr (r', an')
           \<and> missing r' = extra r \<and> extra r' = missing r
           \<and> entry_content ` set (mismatches r')
               = entry_content ` swap_entry ` set (mismatches r)"
proof -
  let ?ms = "key_map source" and ?mt = "key_map target"
  from assms have ar: "length (primary_key source) = length (primary_key target)"
    and r: "r = diff_with_iteration le excluded ?ms ?mt (map fst ?ms) (map fst ?mt)"
    by (auto simp: DiffEngine_def Let_def split: if_splits)
  define r' where "r' = diff_with_iteration le excluded ?mt ?ms (map fst ?mt) (map fst ?ms)"
  have 1: "DiffEngine le excluded target source
             = Inr (r', key_anomalies target @ key_anomalies source)"
    using ar by (simp add: DiffEngine_def Let_def r'_def)
  have 2: "missing r' = extra r"
    by (simp add: r r'_def diff_with_iteration_def Let_def missing_keys_def extra_keys_def)
  have 3: "extra r' = missing r"
    by (simp add: r r'_def diff_with_iteration_def Let_def missing_keys_def extra_keys_def)
  have "set (matched_keys ?mt ?ms (sort_by le (map fst ?mt)))
        = set (matched_keys ?ms ?mt (sort_by le (map fst ?ms)))"
    by (auto simp: set_matched_keys)
  then have 4: "entry_content ` set (mismatches r')
               = entry_content ` swap_entry ` set (mismatches r)"
    unfolding r r'_def diff_with_iteration_def Let_def
    by (simp add: mismatch_entries_swap)
  show ?thesis using 1 2 3 4 by blast
qed

theorem diff_symmetry_witness:
  "DiffEngine typed_le [] orders_source orders_target = Inr (orders_diff, [])
   \<and> (\<exists>r' an'. DiffEngine typed_le [] orders_target orders_source = Inr (r', an')
         \<and> missing r' = [[Some (''7'', KInteger)]]
         \<and> extra r' = [[Some (''10'', KInteger)]]
         \<and> entry_content ` set (mismatches r')
             = {([Some (''5'', KInteger)],
                 {(''status'', Some (''CLOSED'', KString), Some (''OPEN'', KString))})})"
  using diff_symmetry [OF orders_diff_run] orders_diff_run
  by (simp add: orders_diff_def entry_content_def swap_entry_def swap_diff_def)





section \<open>Properties of the KeyInferrer and of the compare flow\<close>


















section \<open>Properties of the INSERT pattern\<close>




















end
